theory Spec2Isabelle
  imports Complex_Main "HOL-Library.Sublist"
begin

section \<open>Strings and small Python helpers\<close>

text \<open>
  A Python \<open>str\<close> is modelled as a \<open>string\<close>; one \<open>char\<close> stands for one code point in
  the range 0..255. Every character the sanitizer, the masking pattern and the assignment
  directive discriminate is ASCII.
\<close>

text \<open>The slice \<open>xs[:k]\<close>; a negative \<open>k\<close> counts from the end.\<close>

definition py_slice_to :: "'a list \<Rightarrow> int \<Rightarrow> 'a list" where
  "py_slice_to xs k =
     (if 0 \<le> k then take (nat k) xs else take (nat (int (length xs) + k)) xs)"

text \<open>\<open>s.replace(c, rep)\<close> for a one-character pattern \<open>c\<close>.\<close>

definition str_replace :: "char \<Rightarrow> string \<Rightarrow> string \<Rightarrow> string" where
  "str_replace c rep s = concat (map (\<lambda>x. if x = c then rep else [x]) s)"

text \<open>Whitespace as \<open>str.strip()\<close> and the regex class \<open>\s\<close> see it (code points below 256).\<close>

definition is_space :: "char \<Rightarrow> bool" where
  "is_space c = (let n = (of_char c :: nat) in
     (9 \<le> n \<and> n \<le> 13) \<or> (28 \<le> n \<and> n \<le> 32) \<or> n = 133 \<or> n = 160)"

definition py_strip :: "string \<Rightarrow> string" where
  "py_strip s = rev (dropWhile is_space (rev (dropWhile is_space s)))"

definition digit_char :: "nat \<Rightarrow> char" where
  "digit_char d = char_of (48 + d)"

fun str_nat :: "nat \<Rightarrow> string" where
  "str_nat n = (if n < 10 then [digit_char n] else str_nat (n div 10) @ [digit_char (n mod 10)])"

declare str_nat.simps [simp del]

text \<open>\<open>str(i)\<close> of a Python integer, as an f-string renders it.\<close>

definition str_int :: "int \<Rightarrow> string" where
  "str_int i = (if i < 0 then CHR ''-'' # str_nat (nat (- i)) else str_nat (nat i))"

section \<open>Sanitizer\<close>

text \<open>The character class \<open>[\x00-\x08\x0b\x0c\x0e-\x1f\x7f]\<close>.\<close>

definition is_control :: "char \<Rightarrow> bool" where
  "is_control c = (let n = (of_char c :: nat) in
     n \<le> 8 \<or> n = 11 \<or> n = 12 \<or> (14 \<le> n \<and> n \<le> 31) \<or> n = 127)"

definition strip_control :: "string \<Rightarrow> string" where
  "strip_control s = filter (\<lambda>c. \<not> is_control c) s"

text \<open>\<open>sanitize_for_slack\<close> (the same body in \<open>notifier.py\<close> and the watcher template).\<close>

definition sanitize_for_slack :: "string \<Rightarrow> int \<Rightarrow> string" where
  "sanitize_for_slack text max_length =
     (if text = [] then []
      else let t1 = (if max_length < int (length text)
                     then py_slice_to text (max_length - 3) @ ''...'' else text);
               t2 = str_replace (CHR ''&'') ''&amp;'' t1;
               t3 = str_replace (CHR ''<'') ''&lt;'' t2;
               t4 = str_replace (CHR ''>'') ''&gt;'' t3
           in strip_control t4)"

text \<open>
  What "no unescaped occurrence" means for a sanitized string: no \<open><\<close> and no \<open>>\<close> at
  all, and every \<open>&\<close> opens one of the three entities.
\<close>

fun well_escaped :: "string \<Rightarrow> bool" where
  "well_escaped [] = True"
| "well_escaped (c # cs) =
     (if c = CHR ''<'' \<or> c = CHR ''>'' then False
      else if c = CHR ''&''
        then (prefix ''amp;'' cs \<or> prefix ''lt;'' cs \<or> prefix ''gt;'' cs) \<and> well_escaped cs
      else well_escaped cs)"

definition is_special :: "char \<Rightarrow> bool" where
  "is_special c = (c = CHR ''&'' \<or> c = CHR ''<'' \<or> c = CHR ''>'')"

section \<open>Rate limiter\<close>

text \<open>
  \<open>RateLimiter\<close>: the deque of admitted timestamps, oldest first. The clock reading is an
  argument of each call.
\<close>

record rate_limiter =
  max_requests :: int
  window_seconds :: int
  requests :: "real list"

definition RATE_LIMIT_MAX :: int where "RATE_LIMIT_MAX = 30"
definition RATE_LIMIT_WINDOW :: int where "RATE_LIMIT_WINDOW = 60"

definition new_rate_limiter :: "int \<Rightarrow> int \<Rightarrow> rate_limiter" where
  "new_rate_limiter m w = \<lparr>max_requests = m, window_seconds = w, requests = []\<rparr>"

text \<open>The pruning loop \<open>while requests and requests[0] < now - window: popleft()\<close>.\<close>

definition prune :: "rate_limiter \<Rightarrow> real \<Rightarrow> real list" where
  "prune rl now = dropWhile (\<lambda>t. t < now - real_of_int (window_seconds rl)) (requests rl)"

definition allow :: "rate_limiter \<Rightarrow> real \<Rightarrow> rate_limiter \<times> bool" where
  "allow rl now =
     (let reqs = prune rl now in
      if max_requests rl \<le> int (length reqs) then (rl\<lparr>requests := reqs\<rparr>, False)
      else (rl\<lparr>requests := reqs @ [now]\<rparr>, True))"

text \<open>\<open>get_stats\<close>: the pruned limiter and \<open>requests_in_window\<close>.\<close>

definition get_stats :: "rate_limiter \<Rightarrow> real \<Rightarrow> rate_limiter \<times> int" where
  "get_stats rl now = (let reqs = prune rl now in (rl\<lparr>requests := reqs\<rparr>, int (length reqs)))"

text \<open>A sequence of \<open>allow()\<close> calls at the given clock readings.\<close>

fun run_allows :: "rate_limiter \<Rightarrow> real list \<Rightarrow> rate_limiter \<times> bool list" where
  "run_allows rl [] = (rl, [])"
| "run_allows rl (t # ts) =
     (let (rl1, b) = allow rl t; (rl2, bs) = run_allows rl1 ts in (rl2, b # bs))"

text \<open>The timestamps of the calls that returned true.\<close>

definition admitted :: "real list \<Rightarrow> bool list \<Rightarrow> real list" where
  "admitted ts bs = map fst (filter snd (zip ts bs))"

section \<open>Configuration and endpoint resolution\<close>

record slack_config =
  webhook_url :: string
  channel :: "string option"
  notify_created :: bool
  notify_in_progress :: bool
  notify_closed :: bool
  notify_agent_complete :: bool
  notify_review_request :: bool

text \<open>The dataclass defaults of \<open>SlackConfig\<close>.\<close>

definition default_config :: slack_config where
  "default_config = \<lparr>webhook_url = [], channel = None, notify_created = True,
     notify_in_progress = True, notify_closed = True, notify_agent_complete = True,
     notify_review_request = True\<rparr>"

text \<open>
  The secrets file as the resolver sees it: absent, present but unreadable (the read
  raises), or present with its text.
\<close>

datatype secrets_file = NoSecrets | SecretsUnreadable | SecretsText string

text \<open>The \<open>notify_on\<close> entry of the YAML document: a dict, the legacy list, or anything else.\<close>

datatype notify_on = NotifyDict "string \<rightharpoonup> bool" | NotifyList "string list" | NotifyOther

text \<open>
  The YAML document after \<open>yaml.safe_load(f) or {}\<close>; \<open>None\<close> is a missing key. A missing
  \<open>notify_on\<close> key is \<open>NotifyDict Map.empty\<close>, the default of \<open>data.get\<close>.
\<close>

record config_data =
  data_webhook_url :: "string option"
  data_channel :: "string option"
  data_notify_on :: notify_on

datatype config_file = NoConfig | ConfigLoadFails | ConfigData config_data

text \<open>
  The placeholder \<open>${VAR}\<close>: \<open>url.startswith("${") and url.endswith("}")\<close> gives
  \<open>url[2:-1]\<close>.
\<close>

definition placeholder_var :: "string \<Rightarrow> string option" where
  "placeholder_var url =
     (if prefix ''${'' url \<and> suffix ''}'' url then Some (butlast (drop 2 url)) else None)"

definition env_get :: "(string \<rightharpoonup> string) \<Rightarrow> string \<Rightarrow> string" where
  "env_get env v = (case env v of None \<Rightarrow> [] | Some x \<Rightarrow> x)"

definition dict_get_bool :: "(string \<rightharpoonup> bool) \<Rightarrow> string \<Rightarrow> bool" where
  "dict_get_bool d k = (case d k of None \<Rightarrow> True | Some b \<Rightarrow> b)"

definition apply_notify_on :: "notify_on \<Rightarrow> slack_config \<Rightarrow> slack_config" where
  "apply_notify_on n c =
     (case n of
        NotifyDict d \<Rightarrow> c\<lparr>notify_created := dict_get_bool d ''created'',
            notify_in_progress := dict_get_bool d ''in_progress'',
            notify_closed := dict_get_bool d ''closed'',
            notify_agent_complete := dict_get_bool d ''agent_complete'',
            notify_review_request := dict_get_bool d ''review_request''\<rparr>
      | NotifyList l \<Rightarrow> c\<lparr>notify_created := (''created'' \<in> set l),
            notify_in_progress := (''in_progress'' \<in> set l),
            notify_closed := (''closed'' \<in> set l),
            notify_agent_complete := (''agent_complete'' \<in> set l),
            notify_review_request := (''review_request'' \<in> set l)\<rparr>
      | NotifyOther \<Rightarrow> c)"

text \<open>\<open>SlackConfig.load\<close>.\<close>

definition load_secret :: "secrets_file \<Rightarrow> slack_config \<Rightarrow> slack_config" where
  "load_secret sf c =
     (case sf of
        SecretsText t \<Rightarrow> (if py_strip t \<noteq> [] then c\<lparr>webhook_url := py_strip t\<rparr> else c)
      | _ \<Rightarrow> c)"

definition env_fallback :: "(string \<rightharpoonup> string) \<Rightarrow> slack_config \<Rightarrow> slack_config" where
  "env_fallback env c =
     (if webhook_url c = [] then c\<lparr>webhook_url := env_get env ''SLACK_WEBHOOK_URL''\<rparr> else c)"

definition load :: "secrets_file \<Rightarrow> config_file \<Rightarrow> (string \<rightharpoonup> string) \<Rightarrow> slack_config" where
  "load sf cf env =
     (let c0 = load_secret sf default_config in
      case cf of
        NoConfig \<Rightarrow> env_fallback env c0
      | ConfigLoadFails \<Rightarrow> c0
      | ConfigData d \<Rightarrow>
          (let c1 = (if webhook_url c0 = []
                     then (let u = (case data_webhook_url d of None \<Rightarrow> [] | Some x \<Rightarrow> x)
                           in c0\<lparr>webhook_url :=
                                (case placeholder_var u of Some v \<Rightarrow> env_get env v | None \<Rightarrow> u)\<rparr>)
                     else c0);
               c2 = c1\<lparr>channel := data_channel d\<rparr>;
               c3 = apply_notify_on (data_notify_on d) c2
           in env_fallback env c3))"

text \<open>\<open>get_webhook_url\<close> of \<open>notifier.py\<close>, the resolver the one-shot CLI uses.\<close>

definition secret_webhook :: "secrets_file \<Rightarrow> string option" where
  "secret_webhook sf =
     (case sf of
        SecretsText t \<Rightarrow>
          (if py_strip t \<noteq> [] \<and> \<not> prefix ''#'' (py_strip t) then Some (py_strip t) else None)
      | _ \<Rightarrow> None)"

definition config_webhook :: "config_file \<Rightarrow> (string \<rightharpoonup> string) \<Rightarrow> string option" where
  "config_webhook cf env =
     (case cf of
        ConfigData d \<Rightarrow>
          (let u = (case data_webhook_url d of None \<Rightarrow> [] | Some x \<Rightarrow> x) in
           case placeholder_var u of
             Some v \<Rightarrow> Some (env_get env v)
           | None \<Rightarrow> if u \<noteq> [] then Some u else None)
      | _ \<Rightarrow> None)"

definition get_webhook_url ::
  "secrets_file \<Rightarrow> config_file \<Rightarrow> (string \<rightharpoonup> string) \<Rightarrow> string option" where
  "get_webhook_url sf cf env =
     (case secret_webhook sf of
        Some u \<Rightarrow> Some u
      | None \<Rightarrow>
          (let env_url = env ''SLACK_WEBHOOK_URL'' in
           if env_url \<noteq> None \<and> env_url \<noteq> Some [] then env_url
           else config_webhook cf env))"

section \<open>Issues and notifier state\<close>

text \<open>
  \<open>Issue\<close>. A comment is kept as its \<open>text\<close> entry (\<open>comment.get("text", "")\<close>), in file
  order.
\<close>

record issue =
  issue_id :: string
  title :: string
  status :: string
  priority :: int
  issue_type :: string
  owner :: string
  assignee :: "string option"
  created_at :: "string option"
  updated_at :: "string option"
  closed_at :: "string option"
  close_reason :: "string option"
  comments :: "string list"

text \<open>
  One attempt of the pattern \<open>@assigned\s+(\S+)\<close> at the head of the text, and
  \<open>re.search\<close> as the leftmost position where it succeeds.
\<close>

definition match_assigned :: "string \<Rightarrow> string option" where
  "match_assigned s =
     (if prefix ''@assigned'' s
      then (let r = drop 9 s; r' = dropWhile is_space r in
            if r \<noteq> r' \<and> r' \<noteq> [] then Some (takeWhile (\<lambda>c. \<not> is_space c) r') else None)
      else None)"

fun search_assigned :: "string \<Rightarrow> string option" where
  "search_assigned [] = None"
| "search_assigned (c # cs) =
     (case match_assigned (c # cs) of Some a \<Rightarrow> Some a | None \<Rightarrow> search_assigned cs)"

fun first_assigned :: "string list \<Rightarrow> string option" where
  "first_assigned [] = None"
| "first_assigned (t # ts) =
     (case search_assigned t of Some a \<Rightarrow> Some a | None \<Rightarrow> first_assigned ts)"

text \<open>\<open>Issue.get_assigned_agent\<close>: the explicit field if truthy, else the newest directive.\<close>

definition get_assigned_agent :: "issue \<Rightarrow> string option" where
  "get_assigned_agent i =
     (case assignee i of
        Some a \<Rightarrow> if a \<noteq> [] then Some a else first_assigned (rev (comments i))
      | None \<Rightarrow> first_assigned (rev (comments i)))"

text \<open>The dict stored per issue in \<open>previous_issues\<close>.\<close>

record snapshot_record =
  snap_id :: string
  snap_status :: string
  snap_assignee :: "string option"
  snap_title :: string

definition snapshot_of :: "issue \<Rightarrow> snapshot_record" where
  "snapshot_of i = \<lparr>snap_id = issue_id i, snap_status = status i,
     snap_assignee = assignee i, snap_title = title i\<rparr>"

text \<open>\<open>NotifierState\<close>: what \<open>save\<close> writes and \<open>load\<close> reads back.\<close>

record notifier_state =
  previous_issues :: "string \<rightharpoonup> snapshot_record"
  assignee_issues :: "string \<rightharpoonup> string set"

definition empty_state :: notifier_state where
  "empty_state = \<lparr>previous_issues = Map.empty, assignee_issues = Map.empty\<rparr>"

text \<open>\<open>update_assignee_tracking\<close>; its \<open>old_status\<close> argument is never read.\<close>

definition update_assignee_tracking ::
  "notifier_state \<Rightarrow> issue \<Rightarrow> string option \<Rightarrow> notifier_state" where
  "update_assignee_tracking st i old_status =
     (case get_assigned_agent i of
        None \<Rightarrow> st
      | Some agent \<Rightarrow>
          if agent = [] then st
          else (let idx = assignee_issues st;
                    cur = (case idx agent of None \<Rightarrow> {} | Some s \<Rightarrow> s) in
                if status i = ''closed''
                  then st\<lparr>assignee_issues := idx(agent \<mapsto> cur - {issue_id i})\<rparr>
                else if status i = ''open'' \<or> status i = ''in_progress''
                  then st\<lparr>assignee_issues := idx(agent \<mapsto> insert (issue_id i) cur)\<rparr>
                else st\<lparr>assignee_issues := idx(agent \<mapsto> cur)\<rparr>))"

definition get_open_issues_for_assignee :: "notifier_state \<Rightarrow> string \<Rightarrow> string set" where
  "get_open_issues_for_assignee st agent =
     (case assignee_issues st agent of None \<Rightarrow> {} | Some s \<Rightarrow> s)"

section \<open>Reading the issue store\<close>

text \<open>
  A line of \<open>issues.jsonl\<close> after \<open>strip()\<close> and \<open>json.loads\<close>: empty, not JSON
  (\<open>JSONDecodeError\<close>, skipped with a warning), JSON that is not an object (\<open>data.get\<close> raises,
  which only the outer handler catches), or an object turned into an \<open>Issue\<close>.
\<close>

datatype line = Blank | Malformed | NotAnObject | Entry issue

text \<open>
  The store file: missing, readable to the end, or raising after the given lines were
  delivered (\<open>ReadFails []\<close> is an \<open>open\<close> that raises).
\<close>

datatype store = Missing | Lines "line list" | ReadFails "line list"

text \<open>\<open>issues[issue.id] = issue\<close> on an insertion-ordered dict, kept as the list of its values.\<close>

fun dict_set :: "issue list \<Rightarrow> issue \<Rightarrow> issue list" where
  "dict_set [] i = [i]"
| "dict_set (j # js) i = (if issue_id j = issue_id i then i # js else j # dict_set js i)"

fun parse_lines :: "issue list \<Rightarrow> line list \<Rightarrow> issue list" where
  "parse_lines acc [] = acc"
| "parse_lines acc (Blank # ls) = parse_lines acc ls"
| "parse_lines acc (Malformed # ls) = parse_lines acc ls"
| "parse_lines acc (NotAnObject # ls) = acc"
| "parse_lines acc (Entry i # ls) = parse_lines (dict_set acc i) ls"

text \<open>
  \<open>parse_issues_jsonl\<close>: the handler of a failed read logs and falls through to
  \<open>return issues\<close>, so the caller receives what was collected so far.
\<close>

definition parse_issues_jsonl :: "store \<Rightarrow> issue list" where
  "parse_issues_jsonl s =
     (case s of Missing \<Rightarrow> [] | Lines ls \<Rightarrow> parse_lines [] ls | ReadFails ls \<Rightarrow> parse_lines [] ls)"

section \<open>Change detection\<close>

text \<open>The calls \<open>process_changes\<close> makes on the notifier, in order.\<close>

datatype event =
  Created issue
| WorkStarted issue
| Completed issue
| AgentComplete string "issue list"

definition closed_by_agent :: "string \<Rightarrow> issue list \<Rightarrow> issue list" where
  "closed_by_agent agent current =
     filter (\<lambda>i. get_assigned_agent i = Some agent \<and> status i = ''closed'') current"

text \<open>The status branch of the loop body for an issue with a previous record.\<close>

definition status_branch ::
  "issue list \<Rightarrow> notifier_state \<Rightarrow> issue \<Rightarrow> string \<Rightarrow> notifier_state \<times> event list" where
  "status_branch current st i old_status =
     (if status i = ''in_progress'' \<and> old_status \<noteq> ''in_progress''
        then (update_assignee_tracking st i (Some old_status), [WorkStarted i])
      else if status i = ''closed'' \<and> old_status \<noteq> ''closed''
        then (case get_assigned_agent i of
                None \<Rightarrow> (update_assignee_tracking st i (Some old_status), [Completed i])
              | Some agent \<Rightarrow>
                  if agent = [] then (update_assignee_tracking st i (Some old_status), [Completed i])
                  else (let st1 = update_assignee_tracking st i (Some old_status);
                            st2 = update_assignee_tracking st1 i (Some old_status) in
                        if get_open_issues_for_assignee st1 agent = {}
                             \<and> closed_by_agent agent current \<noteq> []
                          then (st2, [Completed i, AgentComplete agent (closed_by_agent agent current)])
                        else (st2, [Completed i])))
      else (update_assignee_tracking st i (Some old_status), []))"

text \<open>One iteration of the loop of \<open>process_changes\<close>.\<close>

definition process_issue ::
  "issue list \<Rightarrow> notifier_state \<times> event list \<Rightarrow> issue \<Rightarrow> notifier_state \<times> event list" where
  "process_issue current acc i =
     (let st = fst acc; evs = snd acc; prev = previous_issues st (issue_id i);
          (st1, new) =
            (case prev of
               None \<Rightarrow> (update_assignee_tracking st i None, [Created i])
             | Some p \<Rightarrow>
                 if snap_status p \<noteq> status i then status_branch current st i (snap_status p)
                 else (st, []));
          old_assignee = (case prev of None \<Rightarrow> None | Some p \<Rightarrow> snap_assignee p);
          st2 = (if old_assignee \<noteq> assignee i
                 then update_assignee_tracking st1 i (map_option snap_status prev) else st1)
      in (st2, evs @ new))"

text \<open>
  \<open>process_changes\<close>: the scan. The result is the state that \<open>save\<close> writes and the
  notifier calls made.
\<close>

definition process_changes :: "notifier_state \<Rightarrow> store \<Rightarrow> notifier_state \<times> event list" where
  "process_changes st s =
     (let current = parse_issues_jsonl s;
          (st1, evs) = foldl (process_issue current) (st, []) current
      in (st1\<lparr>previous_issues := map_of (map (\<lambda>i. (issue_id i, snapshot_of i)) current)\<rparr>, evs))"

section \<open>Delivery\<close>

text \<open>The character class \<open>[A-Za-z0-9/]\<close> of the webhook pattern.\<close>

definition is_token_char :: "char \<Rightarrow> bool" where
  "is_token_char c = (let n = (of_char c :: nat) in
     (65 \<le> n \<and> n \<le> 90) \<or> (97 \<le> n \<and> n \<le> 122) \<or> (47 \<le> n \<and> n \<le> 57))"

definition webhook_prefix :: string where
  "webhook_prefix = ''https://hooks.slack.com/services/''"

text \<open>
  \<open>re.sub(r'https://hooks\.slack\.com/services/[A-Za-z0-9/]+', repl, s)\<close>: every leftmost
  greedy match is replaced, and the scan resumes behind it.
\<close>

function mask_webhook :: "string \<Rightarrow> string \<Rightarrow> string" where
  "mask_webhook repl [] = []"
| "mask_webhook repl (c # cs) =
     (let rest = drop (length webhook_prefix) (c # cs) in
      if prefix webhook_prefix (c # cs) \<and> rest \<noteq> [] \<and> is_token_char (hd rest)
        then repl @ mask_webhook repl (dropWhile is_token_char rest)
      else c # mask_webhook repl cs)"
  by pat_completeness auto
termination
proof (relation "measure (\<lambda>(r, s). length s)")
  show "wf (measure (\<lambda>(r, s). length s))" by simp
next
  fix repl :: string and c :: char and cs rest :: string
  assume r: "rest = drop (length webhook_prefix) (c # cs)"
  have "length (dropWhile is_token_char rest) \<le> length rest"
    by (rule length_dropWhile_le)
  also have "length rest < length (c # cs)"
    using r by (simp add: webhook_prefix_def)
  finally show "((repl, dropWhile is_token_char rest), (repl, c # cs)) \<in> measure (\<lambda>(r, s). length s)"
    by simp
next
  fix repl :: string and c :: char and cs :: string
  show "((repl, cs), (repl, c # cs)) \<in> measure (\<lambda>(r, s). length s)" by simp
qed

declare mask_webhook.simps(2) [simp del]

text \<open>\<open>SensitiveDataFilter.filter\<close> on the message of a log record.\<close>

definition log_filter :: "string \<Rightarrow> string" where
  "log_filter msg = mask_webhook ''[WEBHOOK_URL_MASKED]'' msg"

text \<open>
  What \<open>requests.post\<close> does: it returns a response with a status code, or raises
  \<open>Timeout\<close>, or raises another \<open>RequestException\<close> whose \<open>str\<close> is given.
\<close>

datatype post_outcome = Response int | Timeout | RequestException string

datatype block = Section string | Context "string list"

record payload =
  payload_text :: string
  payload_blocks :: "block list option"
  payload_channel :: "string option"

text \<open>What one call of \<open>send\<close> leaves behind.\<close>

record send_result =
  returned :: bool
  limiter :: rate_limiter
  logged :: "string list"
  posted :: "(string \<times> payload) option"

text \<open>
  \<open>SlackNotifier.send\<close>. \<open>now\<close> is the clock reading of \<open>allow\<close>, \<open>now_stats\<close> the later one
  of \<open>get_stats\<close>; \<open>posted\<close> is the url and the body handed to \<open>requests.post\<close>.
\<close>

definition send ::
  "slack_config \<Rightarrow> rate_limiter \<Rightarrow> real \<Rightarrow> real \<Rightarrow> post_outcome \<Rightarrow> string \<Rightarrow> block list option
     \<Rightarrow> send_result" where
  "send cfg rl now now_stats outcome text blocks =
     (if webhook_url cfg = []
        then \<lparr>returned = False, limiter = rl,
              logged = [log_filter ''No webhook URL configured - skipping notification''],
              posted = None\<rparr>
      else (let (rl1, ok) = allow rl now in
        if \<not> ok
          then (let (rl2, n) = get_stats rl1 now_stats in
                \<lparr>returned = False, limiter = rl2,
                 logged = [log_filter (''Rate limit exceeded ('' @ str_int n @ ''/''
                             @ str_int (max_requests rl2) @ '' in ''
                             @ str_int (window_seconds rl2) @ ''s)'')],
                 posted = None\<rparr>)
        else (let text1 = sanitize_for_slack text 3000;
                  body = \<lparr>payload_text = text1,
                          payload_blocks = (case blocks of None \<Rightarrow> None
                                            | Some bs \<Rightarrow> if bs = [] then None else Some bs),
                          payload_channel = (case channel cfg of None \<Rightarrow> None
                                             | Some ch \<Rightarrow> if ch = [] then None else Some ch)\<rparr>;
                  msg = (case outcome of
                           Response code \<Rightarrow>
                             if code = 200 then ''Sent notification: '' @ take 50 text1 @ ''...''
                             else ''Slack API error: HTTP '' @ str_int code
                         | Timeout \<Rightarrow> ''Slack API timeout''
                         | RequestException e \<Rightarrow>
                             ''Failed to send Slack notification: '' @ mask_webhook ''[MASKED]'' e)
              in \<lparr>returned = (outcome = Response 200), limiter = rl1,
                  logged = [log_filter msg], posted = Some (webhook_url cfg, body)\<rparr>)))"

















section \<open>Auxiliary definitions for the proofs\<close>

text \<open>The truncation step, one character's escape, and one character's final output.\<close>

definition truncate_text :: "string \<Rightarrow> int \<Rightarrow> string" where
  "truncate_text text max_length =
     (if max_length < int (length text) then py_slice_to text (max_length - 3) @ ''...'' else text)"

definition esc_char :: "char \<Rightarrow> string" where
  "esc_char c = (if c = CHR ''&'' then ''&amp;'' else if c = CHR ''<'' then ''&lt;''
                 else if c = CHR ''>'' then ''&gt;'' else [c])"

definition out_char :: "char \<Rightarrow> string" where
  "out_char c = (if is_control c then [] else esc_char c)"

text \<open>The state of the limiter after a run from the empty deque.\<close>

definition limiter_inv :: "rate_limiter \<Rightarrow> real list \<Rightarrow> rate_limiter \<Rightarrow> bool list \<Rightarrow> bool" where
  "limiter_inv rl0 ts rl bs \<longleftrightarrow>
     length bs = length ts
     \<and> sorted (admitted ts bs)
     \<and> set (admitted ts bs) \<subseteq> set ts
     \<and> int (length (requests rl)) \<le> max_requests rl0
     \<and> (\<forall>L. (ts \<noteq> [] \<longrightarrow> L = last ts - real_of_int (window_seconds rl0))
            \<longrightarrow> requests rl = filter (\<lambda>x. L \<le> x) (admitted ts bs))"

text \<open>
  The classification in the words of the specification: what the previous record and the
  current item alone decide.
\<close>

definition classify :: "snapshot_record option \<Rightarrow> issue \<Rightarrow> event list" where
  "classify prev i =
     (case prev of
        None \<Rightarrow> [Created i]
      | Some p \<Rightarrow>
          if snap_status p \<noteq> status i \<and> status i = ''in_progress'' then [WorkStarted i]
          else if snap_status p \<noteq> status i \<and> status i = ''closed'' then [Completed i]
          else [])"

text \<open>
  The all-work-complete event in the words of the specification: raised by a transition to
  closed of an item with a resolved agent whose outstanding set, this item removed, is
  empty; it lists the closed items of that agent and is dropped when that list is empty.
\<close>

definition agent_complete_events :: "issue list \<Rightarrow> notifier_state \<Rightarrow> issue \<Rightarrow> event list" where
  "agent_complete_events current st i =
     (case previous_issues st (issue_id i) of
        None \<Rightarrow> []
      | Some p \<Rightarrow>
          if snap_status p \<noteq> status i \<and> status i = ''closed''
          then (case get_assigned_agent i of
                  None \<Rightarrow> []
                | Some a \<Rightarrow>
                    if get_open_issues_for_assignee st a - {issue_id i} = {}
                         \<and> closed_by_agent a current \<noteq> []
                    then [AgentComplete a (closed_by_agent a current)] else [])
          else [])"

fun is_agent_complete :: "event \<Rightarrow> bool" where
  "is_agent_complete (AgentComplete a l) = True"
| "is_agent_complete e = False"

text \<open>The state in which each item of a scan is processed.\<close>

fun step_states :: "issue list \<Rightarrow> notifier_state \<Rightarrow> issue list \<Rightarrow> notifier_state list" where
  "step_states current st [] = []"
| "step_states current st (x # xs) =
     st # step_states current (fst (process_issue current (st, []) x)) xs"

text \<open>An issue as \<open>Issue.from_dict\<close> builds it from a record with the four keys given.\<close>

definition mk_issue :: "string \<Rightarrow> string \<Rightarrow> string \<Rightarrow> string option \<Rightarrow> issue" where
  "mk_issue i t s a = \<lparr>issue_id = i, title = t, status = s, priority = 2, issue_type = ''task'',
     owner = [], assignee = a, created_at = None, updated_at = None, closed_at = None,
     close_reason = None, comments = []\<rparr>"

text \<open>Two items of one agent, and the scans that close them one after the other.\<close>

definition x_open :: issue where "x_open = mk_issue ''X'' ''Fix bug'' ''open'' (Some ''A'')"
definition x_closed :: issue where "x_closed = mk_issue ''X'' ''Fix bug'' ''closed'' (Some ''A'')"
definition y_open :: issue where "y_open = mk_issue ''Y'' ''Add test'' ''open'' (Some ''A'')"
definition y_closed :: issue where "y_closed = mk_issue ''Y'' ''Add test'' ''closed'' (Some ''A'')"

definition both_open :: "notifier_state \<times> event list" where
  "both_open = process_changes empty_state (Lines [Entry x_open, Entry y_open])"
definition x_done :: "notifier_state \<times> event list" where
  "x_done = process_changes (fst both_open) (Lines [Entry x_closed, Entry y_open])"
definition y_done :: "notifier_state \<times> event list" where
  "y_done = process_changes (fst x_done) (Lines [Entry x_closed, Entry y_closed])"

text \<open>One item, first seen with agent A, then reassigned to agent B while still open.\<close>

definition x_open_b :: issue where "x_open_b = mk_issue ''X'' ''Fix bug'' ''open'' (Some ''B'')"

definition first_seen :: "notifier_state \<times> event list" where
  "first_seen = process_changes empty_state (Lines [Entry x_open])"
definition reassigned :: "notifier_state \<times> event list" where
  "reassigned = process_changes (fst first_seen) (Lines [Entry x_open_b])"

text \<open>A scan whose \<open>open\<close> raises, after the scan that first saw the item.\<close>

definition read_failed :: "notifier_state \<times> event list" where
  "read_failed = process_changes (fst first_seen) (ReadFails [])"

text \<open>A config file and an environment that both name an endpoint, and no secrets file.\<close>

definition config_url :: string where
  "config_url = ''https://hooks.slack.com/services/T000/B000/CONFIG''"
definition env_url :: string where
  "env_url = ''https://hooks.slack.com/services/T000/B000/ENV''"
definition both_config :: config_file where
  "both_config = ConfigData \<lparr>data_webhook_url = Some config_url, data_channel = None,
     data_notify_on = NotifyDict Map.empty\<rparr>"
definition both_env :: "string \<rightharpoonup> string" where
  "both_env = [''SLACK_WEBHOOK_URL'' \<mapsto> env_url]"

text \<open>An endpoint with a mistyped scheme, and what \<open>requests\<close> raises for it.\<close>

definition typo_url :: string where
  "typo_url = ''htps://hooks.slack.com/services/T000/B000/XXXX''"
definition typo_config :: slack_config where
  "typo_config = default_config\<lparr>webhook_url := typo_url\<rparr>"
definition invalid_schema_message :: string where
  "invalid_schema_message =
     ''No connection adapters were found for '' @ [CHR 0x27] @ typo_url @ [CHR 0x27]"







section \<open>Sanitizer: properties\<close>

lemma replace_chain:
  "str_replace (CHR ''>'') ''&gt;'' (str_replace (CHR ''<'') ''&lt;'' (str_replace (CHR ''&'') ''&amp;'' s))
     = concat (map esc_char s)"
  by (induction s) (simp_all add: str_replace_def esc_char_def)

lemma strip_esc: "strip_control (concat (map esc_char s)) = concat (map out_char s)"
  by (induction s) (simp_all add: strip_control_def out_char_def esc_char_def is_control_def)

lemma sanitize_alt:
  "sanitize_for_slack text n =
     (if text = [] then [] else concat (map out_char (truncate_text text n)))"
  by (simp add: sanitize_for_slack_def Let_def replace_chain strip_esc truncate_text_def)

lemma well_escaped_out: "well_escaped (concat (map out_char s))"
proof (induction s)
  case Nil
  show ?case by simp
next
  case (Cons c s)
  then show ?case
    by (simp add: out_char_def esc_char_def)
qed

lemma entity_chars_not_control: "\<forall>x \<in> set ''&amp;lt;gt;''. \<not> is_control x"
  by (simp add: is_control_def)

lemma out_char_no_control: "x \<in> set (out_char c) \<Longrightarrow> \<not> is_control x"
proof (cases "is_control c")
  case True
  assume "x \<in> set (out_char c)"
  with True show ?thesis by (simp add: out_char_def)
next
  case False
  assume x: "x \<in> set (out_char c)"
  consider "c = CHR ''&''" | "c = CHR ''<''" | "c = CHR ''>''"
    | "c \<noteq> CHR ''&''" "c \<noteq> CHR ''<''" "c \<noteq> CHR ''>''" by blast
  then show ?thesis
  proof cases
    case 1
    with x False entity_chars_not_control show ?thesis
      by (auto simp: out_char_def esc_char_def)
  next
    case 2
    with x False entity_chars_not_control show ?thesis
      by (auto simp: out_char_def esc_char_def)
  next
    case 3
    with x False entity_chars_not_control show ?thesis
      by (auto simp: out_char_def esc_char_def)
  next
    case 4
    with x False show ?thesis
      by (simp add: out_char_def esc_char_def)
  qed
qed

lemma no_control_out: "\<forall>c \<in> set (concat (map out_char s)). \<not> is_control c"
  using out_char_no_control by auto

lemma length_out_char: "length (out_char c) \<le> 5"
  by (simp add: out_char_def esc_char_def)

lemma length_out: "length (concat (map out_char s)) \<le> 5 * length s"
proof (induction s)
  case Nil
  show ?case by simp
next
  case (Cons c s)
  have "length (out_char c) \<le> 5" by (rule length_out_char)
  with Cons show ?case by simp
qed

lemma length_out_plain:
  "\<forall>c \<in> set s. \<not> is_special c \<Longrightarrow> length (concat (map out_char s)) \<le> length s"
proof (induction s)
  case Nil
  show ?case by simp
next
  case (Cons c s)
  have "length (out_char c) \<le> 1"
    using Cons.prems by (simp add: out_char_def esc_char_def is_special_def)
  with Cons show ?case by simp
qed

lemma length_truncate: "3 \<le> n \<Longrightarrow> int (length (truncate_text text n)) \<le> n"
  by (auto simp: truncate_text_def py_slice_to_def)

lemma truncate_plain:
  "\<forall>c \<in> set text. \<not> is_special c \<Longrightarrow> \<forall>c \<in> set (truncate_text text n). \<not> is_special c"
  by (auto simp: truncate_text_def py_slice_to_def is_special_def dest: in_set_takeD)

text \<open>
  Claim C3 (as amended). For every text and every bound \<open>n\<close>, the result of
  \<open>sanitize_for_slack text n\<close> contains no unescaped \<open>&\<close>, \<open><\<close> or \<open>>\<close> and no control
  character of the stripped ranges. Truncation happens before escaping, so for \<open>n \<ge> 3\<close> the
  length is at most \<open>5 * n\<close>, and at most \<open>n\<close> when the text holds none of the three
  escaped characters.
\<close>

theorem sanitize_postcondition:
  "well_escaped (sanitize_for_slack text n)
   \<and> (\<forall>c \<in> set (sanitize_for_slack text n). \<not> is_control c)
   \<and> (3 \<le> n \<longrightarrow> int (length (sanitize_for_slack text n)) \<le> 5 * n)
   \<and> (3 \<le> n \<and> (\<forall>c \<in> set text. \<not> is_special c)
        \<longrightarrow> int (length (sanitize_for_slack text n)) \<le> n)"
proof (intro conjI impI)
  show "well_escaped (sanitize_for_slack text n)"
    by (simp add: sanitize_alt well_escaped_out)
  show "\<forall>c \<in> set (sanitize_for_slack text n). \<not> is_control c"
    using no_control_out [of "truncate_text text n"] by (simp add: sanitize_alt)
  show "int (length (sanitize_for_slack text n)) \<le> 5 * n" if "3 \<le> n"
    using length_out [of "truncate_text text n"] length_truncate [OF that, of "text"] that
    by (simp add: sanitize_alt)
  show "int (length (sanitize_for_slack text n)) \<le> n"
    if h: "3 \<le> n \<and> (\<forall>c \<in> set text. \<not> is_special c)"
  proof -
    have "length (concat (map out_char (truncate_text text n))) \<le> length (truncate_text text n)"
      using h truncate_plain length_out_plain by blast
    with length_truncate [of n "text"] h show ?thesis
      by (simp add: sanitize_alt)
  qed
qed

theorem sanitize_postcondition_witness:
  "well_escaped (sanitize_for_slack ''a<b'' 3)
   \<and> list_all (\<lambda>c. \<not> is_control c) (sanitize_for_slack ''a<b'' 3)
   \<and> (3::int) \<le> 3 \<and> int (length (sanitize_for_slack ''a<b'' 3)) \<le> 5 * 3
   \<and> list_all (\<lambda>c. \<not> is_special c) ''abcd''
   \<and> int (length (sanitize_for_slack ''abcd'' 3)) \<le> 3"
proof -
  have plain: "\<forall>c \<in> set ''abcd''. \<not> is_special c"
    by code_simp
  have plain': "list_all (\<lambda>c. \<not> is_special c) ''abcd''"
    by code_simp
  have three: "(3::int) \<le> 3"
    by simp
  note t1 = sanitize_postcondition [of "''a<b''" 3]
  note t2 = sanitize_postcondition [of "''abcd''" 3]
  from t1 have "\<forall>c \<in> set (sanitize_for_slack ''a<b'' 3). \<not> is_control c"
    by blast
  then have ctl: "list_all (\<lambda>c. \<not> is_control c) (sanitize_for_slack ''a<b'' 3)"
    by (simp only: list_all_iff)
  from t1 three have len1: "int (length (sanitize_for_slack ''a<b'' 3)) \<le> 5 * 3"
    by blast
  from t2 three plain have len2: "int (length (sanitize_for_slack ''abcd'' 3)) \<le> 3"
    by blast
  from t1 ctl three len1 plain' len2 show ?thesis
    by blast
qed

text \<open>
  The length bound of claim C3 as stated fails: escaping runs after truncation, and a
  three-character text with an ampersand comes back seven characters long under the bound 3.
\<close>

theorem sanitize_length_counterexample:
  "\<not> int (length (sanitize_for_slack ''a&b'' 3)) \<le> 3"
  by code_simp

section \<open>Rate limiter: properties\<close>

lemma allow_fields:
  "max_requests (fst (allow rl t)) = max_requests rl"
  "window_seconds (fst (allow rl t)) = window_seconds rl"
  by (simp_all add: allow_def Let_def)

lemma run_allows_snoc:
  "run_allows rl (ts @ [t]) =
     (let (rl1, bs) = run_allows rl ts; (rl2, b) = allow rl1 t in (rl2, bs @ [b]))"
  by (induction ts arbitrary: rl) (simp_all add: split_def Let_def)

lemma run_allows_append:
  "run_allows rl (ts @ us) =
     (let (rl1, bs) = run_allows rl ts; (rl2, cs) = run_allows rl1 us in (rl2, bs @ cs))"
  by (induction ts arbitrary: rl) (simp_all add: split_def Let_def)

lemma run_allows_length: "length (snd (run_allows rl ts)) = length ts"
  by (induction ts arbitrary: rl) (simp_all add: split_def Let_def)

lemma run_allows_fields:
  "max_requests (fst (run_allows rl ts)) = max_requests rl
   \<and> window_seconds (fst (run_allows rl ts)) = window_seconds rl"
  by (induction ts arbitrary: rl) (simp_all add: split_def Let_def allow_fields)

lemma admitted_snoc:
  "length bs = length ts \<Longrightarrow> admitted (ts @ [t]) (bs @ [b]) = admitted ts bs @ (if b then [t] else [])"
  by (simp add: admitted_def)

lemma sorted_dropWhile_filter:
  fixes c :: real
  shows "sorted xs \<Longrightarrow> dropWhile (\<lambda>x. x < c) xs = filter (\<lambda>x. c \<le> x) xs"
proof (induction xs)
  case Nil
  show ?case by simp
next
  case (Cons x xs)
  show ?case
  proof (cases "x < c")
    case True
    with Cons show ?thesis by simp
  next
    case False
    with Cons.prems have "\<forall>y \<in> set xs. c \<le> y" by auto
    then have "filter (\<lambda>x. c \<le> x) xs = xs" by simp
    with False show ?thesis by simp
  qed
qed

lemma length_filter_mono:
  "(\<And>x. P x \<Longrightarrow> Q x) \<Longrightarrow> length (filter P xs) \<le> length (filter Q xs)"
  by (induction xs) auto

lemma limiter_inv_run:
  assumes "requests rl0 = []" "0 \<le> max_requests rl0" "0 \<le> window_seconds rl0"
  shows "sorted ts \<Longrightarrow> limiter_inv rl0 ts (fst (run_allows rl0 ts)) (snd (run_allows rl0 ts))"
proof (induction ts rule: rev_induct)
  case Nil
  show ?case using assms by (simp add: limiter_inv_def admitted_def)
next
  case (snoc t ts)
  define rl1 where "rl1 = fst (run_allows rl0 ts)"
  define bs where "bs = snd (run_allows rl0 ts)"
  define w where "w = real_of_int (window_seconds rl0)"
  define adm where "adm = admitted ts bs"
  from snoc.prems have sts: "sorted ts" and le: "\<forall>x \<in> set ts. x \<le> t"
    by (auto simp: sorted_append)
  from snoc.IH [OF sts] have inv: "limiter_inv rl0 ts rl1 bs"
    by (simp add: rl1_def bs_def)
  have len: "length bs = length ts" and sadm: "sorted adm" and sub: "set adm \<subseteq> set ts"
    and cap: "int (length (requests rl1)) \<le> max_requests rl0"
    using inv by (simp_all add: limiter_inv_def adm_def)
  have wf: "window_seconds rl1 = window_seconds rl0" "max_requests rl1 = max_requests rl0"
    using run_allows_fields [of rl0 ts] by (simp_all add: rl1_def)
  have w0: "0 \<le> w" using assms by (simp add: w_def)
  have req1: "requests rl1 = filter (\<lambda>x. L \<le> x) adm" if "ts \<noteq> [] \<longrightarrow> L = last ts - w" for L
    using inv that by (simp add: limiter_inv_def adm_def w_def)
  have pr: "prune rl1 t = filter (\<lambda>x. t - w \<le> x) adm"
  proof (cases "ts = []")
    case True
    then have "adm = []" using sub by simp
    moreover have "requests rl1 = []" using req1 [of 0] True \<open>adm = []\<close> by simp
    ultimately show ?thesis by (simp add: prune_def)
  next
    case False
    define L where "L = last ts - w"
    have r: "requests rl1 = filter (\<lambda>x. L \<le> x) adm" using req1 [of L] by (simp add: L_def)
    have "last ts \<le> t" using le False by simp
    then have Lt: "L \<le> t - w" by (simp add: L_def)
    have "sorted (filter (\<lambda>x. L \<le> x) adm)" using sadm by (rule sorted_wrt_filter)
    then have "prune rl1 t = filter (\<lambda>x. t - w \<le> x) (filter (\<lambda>x. L \<le> x) adm)"
      using sorted_dropWhile_filter [of "filter (\<lambda>x. L \<le> x) adm" "t - w"]
      by (simp add: prune_def r wf w_def)
    also have "\<dots> = filter (\<lambda>x. t - w \<le> x) adm"
      using Lt by (auto intro: filter_cong)
    finally show ?thesis .
  qed
  have plen: "length (prune rl1 t) \<le> length (requests rl1)"
    by (simp add: prune_def length_dropWhile_le)
  define b where "b = snd (allow rl1 t)"
  define rl2 where "rl2 = fst (allow rl1 t)"
  have run: "run_allows rl0 (ts @ [t]) = (rl2, bs @ [b])"
    by (simp add: run_allows_snoc split_def Let_def rl1_def bs_def rl2_def b_def)
  have adm2: "admitted (ts @ [t]) (bs @ [b]) = adm @ (if b then [t] else [])"
    using len by (simp add: admitted_snoc adm_def)
  have adm_le: "\<forall>x \<in> set adm. x \<le> t" using sub le by auto
  have req2: "requests rl2 = filter (\<lambda>x. t - w \<le> x) (adm @ (if b then [t] else []))"
    using pr w0 by (simp add: rl2_def b_def allow_def Let_def)
  have cap2: "int (length (requests rl2)) \<le> max_requests rl0"
    using plen cap by (auto simp: rl2_def allow_def Let_def wf)
  have "sorted (adm @ (if b then [t] else []))"
    using sadm adm_le by (simp add: sorted_append)
  moreover have "set (adm @ (if b then [t] else [])) \<subseteq> set (ts @ [t])"
    using sub by auto
  ultimately show ?case
    unfolding run fst_conv snd_conv limiter_inv_def adm2
    using len cap2 req2 by (simp add: w_def)
qed


lemma window_bound_aux:
  assumes "requests rl0 = []" "0 \<le> max_requests rl0" "0 \<le> window_seconds rl0"
  shows "sorted ts \<Longrightarrow>
     int (length (filter (\<lambda>x. T - real_of_int (window_seconds rl0) \<le> x \<and> x \<le> T)
                    (admitted ts (snd (run_allows rl0 ts))))) \<le> max_requests rl0"
proof (induction ts rule: rev_induct)
  case Nil
  show ?case using assms by (simp add: admitted_def)
next
  case (snoc t ts)
  define w where "w = real_of_int (window_seconds rl0)"
  define bs where "bs = snd (run_allows rl0 ts)"
  define b where "b = snd (allow (fst (run_allows rl0 ts)) t)"
  from snoc.prems have sts: "sorted ts" by (simp add: sorted_append)
  have len: "length bs = length ts" by (simp add: bs_def run_allows_length)
  have run: "snd (run_allows rl0 (ts @ [t])) = bs @ [b]"
    by (simp add: run_allows_snoc split_def Let_def bs_def b_def)
  have adm2: "admitted (ts @ [t]) (bs @ [b]) = admitted ts bs @ (if b then [t] else [])"
    using len by (simp add: admitted_snoc)
  show ?case
  proof (cases "t \<le> T")
    case False
    then have "filter (\<lambda>x. T - w \<le> x \<and> x \<le> T) (admitted (ts @ [t]) (bs @ [b]))
                 = filter (\<lambda>x. T - w \<le> x \<and> x \<le> T) (admitted ts bs)"
      by (simp add: adm2)
    with snoc.IH [OF sts] show ?thesis by (simp add: run w_def bs_def)
  next
    case True
    have inv: "limiter_inv rl0 (ts @ [t]) (fst (run_allows rl0 (ts @ [t]))) (bs @ [b])"
      using limiter_inv_run [OF assms snoc.prems] by (simp add: run)
    define rl2 where "rl2 = fst (run_allows rl0 (ts @ [t]))"
    have cap: "int (length (requests rl2)) \<le> max_requests rl0"
      using inv unfolding limiter_inv_def rl2_def by blast
    have "\<forall>L. (ts @ [t] \<noteq> [] \<longrightarrow> L = last (ts @ [t]) - real_of_int (window_seconds rl0))
            \<longrightarrow> requests rl2 = filter (\<lambda>x. L \<le> x) (admitted (ts @ [t]) (bs @ [b]))"
      using inv unfolding limiter_inv_def rl2_def by blast
    then have req: "requests rl2 = filter (\<lambda>x. t - w \<le> x) (admitted (ts @ [t]) (bs @ [b]))"
      by (simp add: w_def)
    have "length (filter (\<lambda>x. T - w \<le> x \<and> x \<le> T) (admitted (ts @ [t]) (bs @ [b])))
            \<le> length (filter (\<lambda>x. t - w \<le> x) (admitted (ts @ [t]) (bs @ [b])))"
      using True by (intro length_filter_mono) simp
    with req cap show ?thesis by (simp add: run w_def)
  qed
qed

lemma replenish_aux:
  assumes "0 \<le> window_seconds rl"
  shows "requests rl = old @ replicate j now
     \<Longrightarrow> \<forall>x \<in> set old. x < now - real_of_int (window_seconds rl)
     \<Longrightarrow> int (j + k) \<le> max_requests rl
     \<Longrightarrow> snd (run_allows rl (replicate k now)) = replicate k True"
  using assms
proof (induction k arbitrary: rl old j)
  case 0
  show ?case by simp
next
  case (Suc k)
  have keep: "dropWhile (\<lambda>t. t < now - real_of_int (window_seconds rl)) (replicate j now)
                = replicate j now"
    using Suc.prems(4) by (cases j) simp_all
  have pr: "prune rl now = replicate j now"
    using Suc.prems(1,2) keep by (simp add: prune_def)
  have lt: "\<not> max_requests rl \<le> int j" using Suc.prems(3) by simp
  define rl1 where "rl1 = rl\<lparr>requests := replicate j now @ [now]\<rparr>"
  have al: "allow rl now = (rl1, True)"
    using pr lt by (simp add: allow_def Let_def rl1_def)
  have r1: "requests rl1 = [] @ replicate (Suc j) now"
    by (simp add: rl1_def replicate_append_same)
  have "snd (run_allows rl1 (replicate k now)) = replicate k True"
  proof (rule Suc.IH [OF r1])
    show "\<forall>x \<in> set []. x < now - real_of_int (window_seconds rl1)" by simp
    show "int (Suc j + k) \<le> max_requests rl1" using Suc.prems(3) by (simp add: rl1_def)
    show "0 \<le> window_seconds rl1" using Suc.prems(4) by (simp add: rl1_def)
  qed
  with al show ?case by (simp add: split_def Let_def)
qed

lemma fill_state:
  assumes "0 \<le> window_seconds rl" "requests rl = []" "int k \<le> max_requests rl"
  shows "requests (fst (run_allows rl (replicate k now))) = replicate k now"
proof -
  have "requests rl = replicate j now \<Longrightarrow> int (j + k) \<le> max_requests rl \<Longrightarrow> 0 \<le> window_seconds rl
     \<Longrightarrow> requests (fst (run_allows rl (replicate k now))) = replicate (j + k) now" for j rl
  proof (induction k arbitrary: rl j)
    case 0
    then show ?case by simp
  next
    case (Suc k)
    have keep: "dropWhile (\<lambda>t. t < now - real_of_int (window_seconds rl)) (replicate j now)
                  = replicate j now"
      using Suc.prems(3) by (cases j) simp_all
    have pr: "prune rl now = replicate j now"
      using Suc.prems(1) keep by (simp add: prune_def)
    have lt: "\<not> max_requests rl \<le> int j" using Suc.prems(2) by simp
    define rl1 where "rl1 = rl\<lparr>requests := replicate j now @ [now]\<rparr>"
    have al: "allow rl now = (rl1, True)"
      using pr lt by (simp add: allow_def Let_def rl1_def)
    have r1: "requests rl1 = replicate (Suc j) now"
      by (simp add: rl1_def replicate_append_same)
    have "requests (fst (run_allows rl1 (replicate k now))) = replicate (Suc j + k) now"
      by (rule Suc.IH [OF r1]) (use Suc.prems in \<open>simp_all add: rl1_def\<close>)
    with al show ?case by (simp add: split_def Let_def)
  qed
  from this [where j = 0 and rl = rl] assms show ?thesis by simp
qed

lemma thirty_scenario:
  fixes t0 d :: real
  assumes "0 \<le> d" "d \<le> 60"
  shows "snd (run_allows (new_rate_limiter 30 60) (replicate 30 t0 @ [t0 + d, t0 + 61]))
           = replicate 30 True @ [False, True]"
proof -
  define rl0 where "rl0 = new_rate_limiter 30 60"
  define rl1 where "rl1 = fst (run_allows rl0 (replicate 30 t0))"
  have f0: "window_seconds rl0 = 60" "max_requests rl0 = 30" "requests rl0 = []"
    by (simp_all add: rl0_def new_rate_limiter_def)
  have bs: "snd (run_allows rl0 (replicate 30 t0)) = replicate 30 True"
    using replenish_aux [of rl0 "[]" 0 t0 30] f0 by simp
  have r1: "requests rl1 = replicate 30 t0"
    using fill_state [of rl0 30 t0] f0 by (simp add: rl1_def)
  have f1: "window_seconds rl1 = 60" "max_requests rl1 = 30"
    using run_allows_fields [of rl0 "replicate 30 t0"] f0 by (simp_all add: rl1_def)
  have keep: "dropWhile (\<lambda>t. t < t0 + d - 60) (replicate 30 t0) = replicate 30 t0"
    using assms by simp
  have a1: "allow rl1 (t0 + d) = (rl1, False)"
    using keep by (simp add: allow_def Let_def prune_def r1 f1)
  have a2: "allow rl1 (t0 + 61) = (rl1\<lparr>requests := [t0 + 61]\<rparr>, True)"
    by (simp add: allow_def Let_def prune_def r1 f1)
  show ?thesis
    unfolding rl0_def [symmetric]
    by (simp add: run_allows_append split_def Let_def bs rl1_def [symmetric] a1 a2)
qed

text \<open>
  Claim C4. From a fresh limiter and for nondecreasing clock readings, the calls that
  returned true and whose timestamps lie in any window \<open>[T - window_seconds, T]\<close> never
  number more than \<open>max_requests\<close>. Once every recorded admission is older than the window,
  the full capacity is available again: \<open>k \<le> max_requests\<close> calls at one instant all return
  true. With the defaults 30 and 60: thirty calls at one instant return true, a further
  call within the next 60 seconds returns false, and a call 61 seconds after the first
  returns true.
\<close>

theorem rate_limiter_window_bound:
  "(sorted ts \<and> 0 \<le> m \<and> 0 \<le> w \<longrightarrow>
      (\<forall>T. int (length (filter (\<lambda>x. T - real_of_int w \<le> x \<and> x \<le> T)
                 (admitted ts (snd (run_allows (new_rate_limiter m w) ts))))) \<le> m))
   \<and> (0 \<le> window_seconds rl \<and> (\<forall>x \<in> set (requests rl). x < now - real_of_int (window_seconds rl))
        \<and> int k \<le> max_requests rl
        \<longrightarrow> snd (run_allows rl (replicate k now)) = replicate k True)
   \<and> (0 \<le> d \<and> d \<le> 60 \<longrightarrow>
        snd (run_allows (new_rate_limiter RATE_LIMIT_MAX RATE_LIMIT_WINDOW)
               (replicate 30 t0 @ [t0 + d, t0 + 61]))
          = replicate 30 True @ [False, True])"
proof (intro conjI impI allI)
  fix T
  assume h: "sorted ts \<and> 0 \<le> m \<and> 0 \<le> w"
  have "requests (new_rate_limiter m w) = []" "0 \<le> max_requests (new_rate_limiter m w)"
    "0 \<le> window_seconds (new_rate_limiter m w)"
    using h by (simp_all add: new_rate_limiter_def)
  from window_bound_aux [OF this, of ts T] h
  show "int (length (filter (\<lambda>x. T - real_of_int w \<le> x \<and> x \<le> T)
                 (admitted ts (snd (run_allows (new_rate_limiter m w) ts))))) \<le> m"
    by (simp add: new_rate_limiter_def)
next
  assume h: "0 \<le> window_seconds rl
     \<and> (\<forall>x \<in> set (requests rl). x < now - real_of_int (window_seconds rl))
     \<and> int k \<le> max_requests rl"
  then show "snd (run_allows rl (replicate k now)) = replicate k True"
    using replenish_aux [of rl "requests rl" 0 now k] by simp
next
  assume "0 \<le> d \<and> d \<le> 60"
  then show "snd (run_allows (new_rate_limiter RATE_LIMIT_MAX RATE_LIMIT_WINDOW)
               (replicate 30 t0 @ [t0 + d, t0 + 61]))
          = replicate 30 True @ [False, True]"
    using thirty_scenario [of d t0] by (simp add: RATE_LIMIT_MAX_def RATE_LIMIT_WINDOW_def)
qed


theorem rate_limiter_window_bound_witness:
  "sorted [0, 1, 2 :: real] \<and> (0::int) \<le> 2 \<and> (0::int) \<le> 60
   \<and> int (length (filter (\<lambda>x. 2 - real_of_int 60 \<le> x \<and> x \<le> 2)
                 (admitted [0, 1, 2] (snd (run_allows (new_rate_limiter 2 60) [0, 1, 2]))))) \<le> 2
   \<and> list_all (\<lambda>x. x < 100 - real_of_int 60)
         (requests \<lparr>max_requests = 30, window_seconds = 60, requests = [0, 5]\<rparr>)
   \<and> snd (run_allows \<lparr>max_requests = 30, window_seconds = 60, requests = [0, 5]\<rparr>
             (replicate 2 100)) = replicate 2 True
   \<and> (0::real) \<le> 10 \<and> (10::real) \<le> 60
   \<and> snd (run_allows (new_rate_limiter RATE_LIMIT_MAX RATE_LIMIT_WINDOW)
             (replicate 30 0 @ [0 + 10, 0 + 61]))
        = replicate 30 True @ [False, True]"
proof -
  note t = rate_limiter_window_bound [where ts = "[0, 1, 2]" and m = 2 and w = 60
      and rl = "\<lparr>max_requests = 30, window_seconds = 60, requests = [0, 5]\<rparr>"
      and now = 100 and k = 2 and d = 10 and ?t0.0 = 0]
  have a: "sorted [0, 1, 2 :: real] \<and> (0::int) \<le> 2 \<and> (0::int) \<le> 60"
    by simp
  have b: "(0::int) \<le> window_seconds \<lparr>max_requests = 30, window_seconds = 60, requests = [0, 5]\<rparr>
      \<and> (\<forall>x \<in> set (requests \<lparr>max_requests = 30, window_seconds = 60, requests = [0, 5]\<rparr>).
            x < 100 - real_of_int (window_seconds
                  \<lparr>max_requests = 30, window_seconds = 60, requests = [0, 5]\<rparr>))
      \<and> int 2 \<le> max_requests \<lparr>max_requests = 30, window_seconds = 60, requests = [0, 5]\<rparr>"
    by simp
  have c: "(0::real) \<le> 10 \<and> (10::real) \<le> 60"
    by simp
  from t a have "\<forall>T. int (length (filter (\<lambda>x. T - real_of_int 60 \<le> x \<and> x \<le> T)
                 (admitted [0, 1, 2] (snd (run_allows (new_rate_limiter 2 60) [0, 1, 2]))))) \<le> 2"
    by blast
  then have r1: "int (length (filter (\<lambda>x. 2 - real_of_int 60 \<le> x \<and> x \<le> 2)
                 (admitted [0, 1, 2] (snd (run_allows (new_rate_limiter 2 60) [0, 1, 2]))))) \<le> 2"
    by (rule spec)
  from t b have r2: "snd (run_allows \<lparr>max_requests = 30, window_seconds = 60, requests = [0, 5]\<rparr>
             (replicate 2 100)) = replicate 2 True"
    by blast
  from t c have r3: "snd (run_allows (new_rate_limiter RATE_LIMIT_MAX RATE_LIMIT_WINDOW)
             (replicate 30 0 @ [0 + 10, 0 + 61])) = replicate 30 True @ [False, True]"
    by blast
  have b': "list_all (\<lambda>x. x < 100 - real_of_int 60)
         (requests \<lparr>max_requests = 30, window_seconds = 60, requests = [0, 5]\<rparr>)"
    by simp
  from a r1 b' r2 c r3 show ?thesis by blast
qed

section \<open>Change detection: properties\<close>

lemma dict_set_ids:
  "set (map issue_id (dict_set js i)) = insert (issue_id i) (set (map issue_id js))"
  by (induction js) auto

lemma dict_set_distinct:
  "distinct (map issue_id js) \<Longrightarrow> distinct (map issue_id (dict_set js i))"
proof (induction js)
  case Nil
  show ?case by simp
next
  case (Cons j js)
  show ?case
  proof (cases "issue_id j = issue_id i")
    case True
    with Cons.prems show ?thesis by simp
  next
    case False
    have "issue_id j \<notin> set (map issue_id (dict_set js i))"
      using Cons.prems False by (simp only: dict_set_ids) auto
    with Cons False show ?thesis by simp
  qed
qed

lemma parse_lines_distinct:
  "distinct (map issue_id acc) \<Longrightarrow> distinct (map issue_id (parse_lines acc ls))"
  by (induction acc ls rule: parse_lines.induct) (simp_all add: dict_set_distinct)

lemma parse_distinct: "distinct (map issue_id (parse_issues_jsonl s))"
  by (cases s) (simp_all add: parse_issues_jsonl_def parse_lines_distinct)

lemma snapshot_lookup:
  assumes "distinct (map issue_id cur)" "i \<in> set cur"
  shows "map_of (map (\<lambda>i. (issue_id i, snapshot_of i)) cur) (issue_id i) = Some (snapshot_of i)"
proof (rule map_of_is_SomeI)
  show "distinct (map fst (map (\<lambda>i. (issue_id i, snapshot_of i)) cur))"
    using assms(1) by (simp add: comp_def)
  show "(issue_id i, snapshot_of i) \<in> set (map (\<lambda>i. (issue_id i, snapshot_of i)) cur)"
    using assms(2) by auto
qed

lemma update_prev [simp]:
  "previous_issues (update_assignee_tracking st i old) = previous_issues st"
  by (simp add: update_assignee_tracking_def Let_def split: option.splits)

lemma status_branch_prev [simp]:
  "previous_issues (fst (status_branch cur st i old)) = previous_issues st"
  by (simp add: status_branch_def Let_def split: option.splits)

lemma process_issue_prev [simp]:
  "previous_issues (fst (process_issue cur acc i)) = previous_issues (fst acc)"
  by (simp add: process_issue_def Let_def split_def split: option.splits)

lemma process_issue_noop:
  "previous_issues st (issue_id i) = Some (snapshot_of i) \<Longrightarrow> process_issue cur (st, evs) i = (st, evs)"
  by (simp add: process_issue_def snapshot_of_def)

lemma foldl_noop:
  "\<forall>i \<in> set xs. previous_issues st (issue_id i) = Some (snapshot_of i)
     \<Longrightarrow> foldl (process_issue cur) (st, evs) xs = (st, evs)"
  by (induction xs) (simp_all add: process_issue_noop)

text \<open>
  Claim C9. For every store contents and every prior state, a second scan of the unchanged
  store right after a first one calls the notifier not at all and leaves the state (the
  snapshot and the assignee index) exactly as the first scan left it.
\<close>

theorem scan_idempotent:
  "process_changes (fst (process_changes st s)) s = (fst (process_changes st s), [])"
proof -
  define cur where "cur = parse_issues_jsonl s"
  define M where "M = map_of (map (\<lambda>i. (issue_id i, snapshot_of i)) cur)"
  define st1 where "st1 = fst (process_changes st s)"
  have p1: "previous_issues st1 = M"
    by (simp add: st1_def process_changes_def Let_def split_def cur_def M_def)
  have "\<forall>i \<in> set cur. previous_issues st1 (issue_id i) = Some (snapshot_of i)"
    using parse_distinct [of s] snapshot_lookup [of cur] by (simp add: p1 M_def cur_def)
  then have "foldl (process_issue cur) (st1, []) cur = (st1, [])"
    by (rule foldl_noop)
  moreover have "st1\<lparr>previous_issues := M\<rparr> = st1"
    using p1 by simp
  ultimately show ?thesis
    unfolding st1_def [symmetric]
    by (simp add: process_changes_def Let_def cur_def [symmetric] M_def [symmetric])
qed

theorem scan_idempotent_witness:
  "process_changes (fst both_open) (Lines [Entry x_open, Entry y_open]) = (fst both_open, [])"
  using scan_idempotent [of empty_state "Lines [Entry x_open, Entry y_open]"]
  by (simp add: both_open_def)

lemma match_assigned_nonempty: "match_assigned s = Some a \<Longrightarrow> a \<noteq> []"
proof -
  assume m: "match_assigned s = Some a"
  define r' where "r' = dropWhile is_space (drop 9 s)"
  from m have ne: "r' \<noteq> []" and a: "a = takeWhile (\<lambda>c. \<not> is_space c) r'"
    by (auto simp: match_assigned_def Let_def r'_def split: if_splits)
  have "\<not> is_space (hd r')"
    using ne unfolding r'_def by (rule hd_dropWhile)
  with ne have "takeWhile (\<lambda>c. \<not> is_space c) r' \<noteq> []"
    by (cases r') simp_all
  with a show ?thesis by simp
qed

lemma search_assigned_nonempty: "search_assigned s = Some a \<Longrightarrow> a \<noteq> []"
  by (induction s) (auto split: option.splits dest: match_assigned_nonempty)

lemma first_assigned_nonempty: "first_assigned ts = Some a \<Longrightarrow> a \<noteq> []"
  by (induction ts) (auto split: option.splits dest: search_assigned_nonempty)

lemma agent_nonempty: "get_assigned_agent i = Some a \<Longrightarrow> a \<noteq> []"
  by (auto simp: get_assigned_agent_def split: option.splits if_splits dest: first_assigned_nonempty)

lemma open_after_close:
  "get_assigned_agent i = Some a \<Longrightarrow> status i = ''closed'' \<Longrightarrow>
   get_open_issues_for_assignee (update_assignee_tracking st i old) a
     = get_open_issues_for_assignee st a - {issue_id i}"
  by (frule agent_nonempty)
     (simp add: update_assignee_tracking_def get_open_issues_for_assignee_def Let_def
        split: option.splits)

lemma status_branch_events:
  assumes ne: "old \<noteq> status i"
  shows "snd (status_branch cur st i old) =
     (if status i = ''in_progress'' then [WorkStarted i]
      else if status i = ''closed''
        then Completed i #
          (case get_assigned_agent i of
             None \<Rightarrow> []
           | Some a \<Rightarrow>
               if get_open_issues_for_assignee st a - {issue_id i} = {}
                    \<and> closed_by_agent a cur \<noteq> []
               then [AgentComplete a (closed_by_agent a cur)] else [])
      else [])"
proof (cases "get_assigned_agent i")
  case None
  with ne show ?thesis by (auto simp: status_branch_def)
next
  case (Some a)
  show ?thesis
  proof (cases "status i = ''closed''")
    case True
    with Some ne agent_nonempty [OF Some] open_after_close [OF Some True, of st "Some old"]
    show ?thesis by (simp add: status_branch_def Let_def)
  next
    case False
    with Some ne show ?thesis by (auto simp: status_branch_def)
  qed
qed

lemma process_issue_events:
  "snd (process_issue cur (st, evs) i)
     = evs @ classify (previous_issues st (issue_id i)) i @ agent_complete_events cur st i"
proof (cases "previous_issues st (issue_id i)")
  case None
  then show ?thesis
    by (simp add: process_issue_def classify_def agent_complete_events_def Let_def split_def)
next
  case (Some p)
  show ?thesis
  proof (cases "snap_status p = status i")
    case True
    with Some show ?thesis
      by (simp add: process_issue_def classify_def agent_complete_events_def Let_def split_def)
  next
    case False
    with Some status_branch_events [of "snap_status p" i cur st] show ?thesis
      by (simp add: process_issue_def classify_def agent_complete_events_def Let_def split_def
          split: option.splits)
  qed
qed

lemma classify_no_agent_complete:
  "filter (\<lambda>e. \<not> is_agent_complete e) (classify prev i) = classify prev i"
  by (simp add: classify_def split: option.splits)

lemma ac_filter_generic:
  "filter (\<lambda>e. \<not> is_agent_complete e)
     (if c then (case g of None \<Rightarrow> [] | Some a \<Rightarrow> if Q a then [AgentComplete a (l a)] else [])
      else []) = []"
  by (cases c; cases g; simp)

lemma agent_complete_only:
  "filter (\<lambda>e. \<not> is_agent_complete e) (agent_complete_events cur st i) = []"
proof (cases "previous_issues st (issue_id i)")
  case None
  then show ?thesis by (simp add: agent_complete_events_def)
next
  case (Some p)
  show ?thesis
    unfolding agent_complete_events_def Some option.case
    by (rule ac_filter_generic)
qed

lemma foldl_events:
  "filter (\<lambda>e. \<not> is_agent_complete e) (snd (foldl (process_issue cur) (st, evs) xs))
     = filter (\<lambda>e. \<not> is_agent_complete e) evs
       @ concat (map (\<lambda>i. classify (previous_issues st (issue_id i)) i) xs)"
proof (induction xs arbitrary: st evs)
  case Nil
  show ?case by simp
next
  case (Cons x xs)
  define st1 where "st1 = fst (process_issue cur (st, evs) x)"
  define evs1 where "evs1 = snd (process_issue cur (st, evs) x)"
  have p: "previous_issues st1 = previous_issues st"
    by (simp add: st1_def)
  have e: "filter (\<lambda>e. \<not> is_agent_complete e) evs1
             = filter (\<lambda>e. \<not> is_agent_complete e) evs @ classify (previous_issues st (issue_id x)) x"
    by (simp add: evs1_def process_issue_events classify_no_agent_complete agent_complete_only)
  have "foldl (process_issue cur) (st, evs) (x # xs) = foldl (process_issue cur) (st1, evs1) xs"
    by (simp add: st1_def evs1_def)
  then show ?case
    using Cons.IH [of st1 evs1] by (simp add: p e)
qed

lemma scan_events:
  "filter (\<lambda>e. \<not> is_agent_complete e) (snd (process_changes st s))
     = concat (map (\<lambda>i. classify (previous_issues st (issue_id i)) i) (parse_issues_jsonl s))"
  using foldl_events [of "parse_issues_jsonl s" st "[]" "parse_issues_jsonl s"]
  by (simp add: process_changes_def Let_def split_def)

lemma scan_prev:
  "previous_issues (fst (process_changes st s))
     = map_of (map (\<lambda>i. (issue_id i, snapshot_of i)) (parse_issues_jsonl s))"
  by (simp add: process_changes_def Let_def split_def)

lemma classify_mem:
  "Created i \<in> set (classify prev j) \<longleftrightarrow> i = j \<and> prev = None"
  "WorkStarted i \<in> set (classify prev j) \<longleftrightarrow>
     i = j \<and> (\<exists>p. prev = Some p \<and> status j = ''in_progress'' \<and> snap_status p \<noteq> ''in_progress'')"
  "Completed i \<in> set (classify prev j) \<longleftrightarrow>
     i = j \<and> (\<exists>p. prev = Some p \<and> status j = ''closed'' \<and> snap_status p \<noteq> ''closed'')"
  by (cases prev; auto simp: classify_def)+

lemma mem_non_agent_complete:
  "\<not> is_agent_complete e \<Longrightarrow> e \<in> set xs \<longleftrightarrow> e \<in> set (filter (\<lambda>e. \<not> is_agent_complete e) xs)"
  by simp

lemma single_scan:
  "snd (process_changes st (Lines [Entry x]))
     = classify (previous_issues st (issue_id x)) x @ agent_complete_events [x] st x"
  using process_issue_events [of "[x]" st "[]" x]
  by (simp add: process_changes_def parse_issues_jsonl_def Let_def split_def)

lemma single_prev:
  "previous_issues (fst (process_changes st (Lines [Entry x]))) (issue_id x) = Some (snapshot_of x)"
  by (simp add: scan_prev parse_issues_jsonl_def)

lemma agent_complete_not_closed:
  "status i \<noteq> ''closed'' \<Longrightarrow> agent_complete_events cur st i = []"
  by (cases "previous_issues st (issue_id i)") (simp_all add: agent_complete_events_def)

text \<open>
  Claim C6. In one scan, leaving the all-work-complete events aside, the notifier calls
  are exactly the classification of each current item against its previous record, in
  store order. So for each current item: Created is raised iff its id is absent from the
  previous snapshot (whatever its status), WorkStarted iff the id is present and the
  status changed to \<open>in_progress\<close>, Completed iff the id is present and the status changed
  to \<open>closed\<close>, and any other change raises none of them. An item that is seen open, then
  in progress, then closed raises WorkStarted in the second scan and Completed in the third,
  and neither in the first.
\<close>

theorem transition_classification:
  "filter (\<lambda>e. \<not> is_agent_complete e) (snd (process_changes st s))
     = concat (map (\<lambda>i. classify (previous_issues st (issue_id i)) i) (parse_issues_jsonl s))
   \<and> (\<forall>i \<in> set (parse_issues_jsonl s).
         (Created i \<in> set (snd (process_changes st s))
            \<longleftrightarrow> previous_issues st (issue_id i) = None)
       \<and> (WorkStarted i \<in> set (snd (process_changes st s))
            \<longleftrightarrow> (\<exists>p. previous_issues st (issue_id i) = Some p
                      \<and> status i = ''in_progress'' \<and> snap_status p \<noteq> ''in_progress''))
       \<and> (Completed i \<in> set (snd (process_changes st s))
            \<longleftrightarrow> (\<exists>p. previous_issues st (issue_id i) = Some p
                      \<and> status i = ''closed'' \<and> snap_status p \<noteq> ''closed'')))
   \<and> (let x1 = x\<lparr>status := ''open''\<rparr>; x2 = x\<lparr>status := ''in_progress''\<rparr>;
           x3 = x\<lparr>status := ''closed''\<rparr>;
           r1 = process_changes st (Lines [Entry x1]);
           r2 = process_changes (fst r1) (Lines [Entry x2]);
           r3 = process_changes (fst r2) (Lines [Entry x3])
       in (filter (\<lambda>e. \<not> is_agent_complete e) (snd r1) = [Created x1]
             \<or> filter (\<lambda>e. \<not> is_agent_complete e) (snd r1) = [])
          \<and> snd r2 = [WorkStarted x2]
          \<and> filter (\<lambda>e. \<not> is_agent_complete e) (snd r3) = [Completed x3])"
proof (intro conjI ballI)
  show seq: "filter (\<lambda>e. \<not> is_agent_complete e) (snd (process_changes st s))
     = concat (map (\<lambda>i. classify (previous_issues st (issue_id i)) i) (parse_issues_jsonl s))"
    by (rule scan_events)
  fix i
  assume i: "i \<in> set (parse_issues_jsonl s)"
  show "Created i \<in> set (snd (process_changes st s))
            \<longleftrightarrow> previous_issues st (issue_id i) = None"
    using i by (subst mem_non_agent_complete) (auto simp: seq classify_mem)
  show "WorkStarted i \<in> set (snd (process_changes st s))
            \<longleftrightarrow> (\<exists>p. previous_issues st (issue_id i) = Some p
                      \<and> status i = ''in_progress'' \<and> snap_status p \<noteq> ''in_progress'')"
    using i by (subst mem_non_agent_complete) (auto simp: seq classify_mem)
  show "Completed i \<in> set (snd (process_changes st s))
            \<longleftrightarrow> (\<exists>p. previous_issues st (issue_id i) = Some p
                      \<and> status i = ''closed'' \<and> snap_status p \<noteq> ''closed'')"
    using i by (subst mem_non_agent_complete) (auto simp: seq classify_mem)
next
  define x1 where "x1 = x\<lparr>status := ''open''\<rparr>"
  define x2 where "x2 = x\<lparr>status := ''in_progress''\<rparr>"
  define x3 where "x3 = x\<lparr>status := ''closed''\<rparr>"
  define r1 where "r1 = process_changes st (Lines [Entry x1])"
  define r2 where "r2 = process_changes (fst r1) (Lines [Entry x2])"
  define r3 where "r3 = process_changes (fst r2) (Lines [Entry x3])"
  have ids: "issue_id x2 = issue_id x1" "issue_id x3 = issue_id x2"
    by (simp_all add: x1_def x2_def x3_def)
  have "previous_issues (fst r1) (issue_id x1) = Some (snapshot_of x1)"
    unfolding r1_def by (rule single_prev)
  then have p1: "previous_issues (fst r1) (issue_id x2) = Some (snapshot_of x1)"
    by (simp only: ids)
  have "previous_issues (fst r2) (issue_id x2) = Some (snapshot_of x2)"
    unfolding r2_def by (rule single_prev)
  then have p2: "previous_issues (fst r2) (issue_id x3) = Some (snapshot_of x2)"
    by (simp only: ids(2))
  have e1: "filter (\<lambda>e. \<not> is_agent_complete e) (snd r1) = [Created x1]
             \<or> filter (\<lambda>e. \<not> is_agent_complete e) (snd r1) = []"
    unfolding r1_def scan_events
    by (cases "previous_issues st (issue_id x1)")
       (simp_all add: parse_issues_jsonl_def classify_def x1_def)
  have "status x2 \<noteq> ''closed''" by (simp add: x2_def)
  then have "agent_complete_events [x2] (fst r1) x2 = []"
    by (rule agent_complete_not_closed)
  then have e2: "snd r2 = [WorkStarted x2]"
    unfolding r2_def single_scan p1
    by (simp add: classify_def snapshot_of_def x1_def x2_def)
  have c3: "classify (previous_issues (fst r2) (issue_id x3)) x3 = [Completed x3]"
    unfolding p2 by (simp add: classify_def snapshot_of_def x2_def x3_def)
  have e3: "filter (\<lambda>e. \<not> is_agent_complete e) (snd r3) = [Completed x3]"
    unfolding r3_def scan_events
    by (simp add: parse_issues_jsonl_def c3)
  from e1 e2 e3 show "let x1 = x\<lparr>status := ''open''\<rparr>; x2 = x\<lparr>status := ''in_progress''\<rparr>;
           x3 = x\<lparr>status := ''closed''\<rparr>;
           r1 = process_changes st (Lines [Entry x1]);
           r2 = process_changes (fst r1) (Lines [Entry x2]);
           r3 = process_changes (fst r2) (Lines [Entry x3])
       in (filter (\<lambda>e. \<not> is_agent_complete e) (snd r1) = [Created x1]
             \<or> filter (\<lambda>e. \<not> is_agent_complete e) (snd r1) = [])
          \<and> snd r2 = [WorkStarted x2]
          \<and> filter (\<lambda>e. \<not> is_agent_complete e) (snd r3) = [Completed x3]"
    unfolding Let_def x1_def x2_def x3_def r1_def r2_def r3_def by blast
qed

theorem transition_classification_witness:
  "x_open \<in> set (parse_issues_jsonl (Lines [Entry x_open]))
   \<and> previous_issues empty_state (issue_id x_open) = None
   \<and> Created x_open \<in> set (snd (process_changes empty_state (Lines [Entry x_open])))
   \<and> WorkStarted x_open \<notin> set (snd (process_changes empty_state (Lines [Entry x_open])))
   \<and> Completed x_open \<notin> set (snd (process_changes empty_state (Lines [Entry x_open])))"
proof -
  note t = transition_classification [where st = empty_state and s = "Lines [Entry x_open]"
      and x = x_open]
  have m: "x_open \<in> set (parse_issues_jsonl (Lines [Entry x_open]))"
    by (simp add: parse_issues_jsonl_def)
  have n: "previous_issues empty_state (issue_id x_open) = None"
    by (simp add: empty_state_def)
  from t m have
    "(Created x_open \<in> set (snd (process_changes empty_state (Lines [Entry x_open])))
        \<longleftrightarrow> previous_issues empty_state (issue_id x_open) = None)
     \<and> (WorkStarted x_open \<in> set (snd (process_changes empty_state (Lines [Entry x_open])))
        \<longleftrightarrow> (\<exists>p. previous_issues empty_state (issue_id x_open) = Some p
                  \<and> status x_open = ''in_progress'' \<and> snap_status p \<noteq> ''in_progress''))
     \<and> (Completed x_open \<in> set (snd (process_changes empty_state (Lines [Entry x_open])))
        \<longleftrightarrow> (\<exists>p. previous_issues empty_state (issue_id x_open) = Some p
                  \<and> status x_open = ''closed'' \<and> snap_status p \<noteq> ''closed''))"
    by blast
  with m n show ?thesis by simp
qed

lemma agent_complete_mem:
  "AgentComplete a l \<in> set (agent_complete_events current st i) \<longleftrightarrow>
     (\<exists>p. previous_issues st (issue_id i) = Some p \<and> status i = ''closed''
          \<and> snap_status p \<noteq> ''closed'' \<and> get_assigned_agent i = Some a
          \<and> get_open_issues_for_assignee st a - {issue_id i} = {}
          \<and> l = closed_by_agent a current \<and> l \<noteq> [])"
proof (cases "previous_issues st (issue_id i)")
  case None
  then show ?thesis by (simp add: agent_complete_events_def)
next
  case (Some p)
  show ?thesis
  proof (cases "snap_status p \<noteq> status i \<and> status i = ''closed''")
    case False
    have "agent_complete_events current st i = []"
      unfolding agent_complete_events_def Some option.case by (rule if_not_P [OF False])
    moreover have "\<not> (status i = ''closed'' \<and> snap_status p \<noteq> ''closed'')"
      using False by auto
    ultimately show ?thesis using Some by auto
  next
    case True
    have ev: "agent_complete_events current st i =
        (case get_assigned_agent i of
           None \<Rightarrow> []
         | Some a \<Rightarrow>
             if get_open_issues_for_assignee st a - {issue_id i} = {}
                  \<and> closed_by_agent a current \<noteq> []
             then [AgentComplete a (closed_by_agent a current)] else [])"
      unfolding agent_complete_events_def Some option.case by (rule if_P [OF True])
    have st: "status i = ''closed''" "snap_status p \<noteq> ''closed''"
      using True by auto
    show ?thesis
    proof (cases "get_assigned_agent i")
      case None
      then show ?thesis unfolding ev by simp
    next
      case (Some b)
      show ?thesis
        unfolding ev Some option.case using \<open>previous_issues st (issue_id i) = Some p\<close> st
        by auto
    qed
  qed
qed

lemma closed_by_agent_nonempty:
  "i \<in> set current \<Longrightarrow> status i = ''closed'' \<Longrightarrow> get_assigned_agent i = Some a
     \<Longrightarrow> closed_by_agent a current \<noteq> []"
  by (auto simp: closed_by_agent_def filter_empty_conv)

lemma process_issue_state:
  "fst (process_issue cur (st, evs) i) = fst (process_issue cur (st, []) i)"
  by (simp add: process_issue_def Let_def split_def)

lemma foldl_steps:
  "snd (foldl (process_issue cur) (st, evs) xs)
     = evs @ concat (map (\<lambda>(sk, i). classify (previous_issues sk (issue_id i)) i
                                      @ agent_complete_events cur sk i)
                         (zip (step_states cur st xs) xs))"
proof (induction xs arbitrary: st evs)
  case Nil
  show ?case by simp
next
  case (Cons x xs)
  define st1 where "st1 = fst (process_issue cur (st, []) x)"
  define evs1 where "evs1 = snd (process_issue cur (st, evs) x)"
  have "process_issue cur (st, evs) x = (st1, evs1)"
    using process_issue_state [of cur st evs x] by (simp add: st1_def evs1_def prod_eq_iff)
  then have "foldl (process_issue cur) (st, evs) (x # xs) = foldl (process_issue cur) (st1, evs1) xs"
    by simp
  moreover have "evs1 = evs @ classify (previous_issues st (issue_id x)) x
                       @ agent_complete_events cur st x"
    unfolding evs1_def by (rule process_issue_events)
  ultimately show ?case
    using Cons.IH [of st1 evs1] by (simp add: st1_def)
qed

lemma scan_steps:
  "snd (process_changes st s)
     = concat (map (\<lambda>(sk, i). classify (previous_issues sk (issue_id i)) i
                                @ agent_complete_events (parse_issues_jsonl s) sk i)
                   (zip (step_states (parse_issues_jsonl s) st (parse_issues_jsonl s))
                        (parse_issues_jsonl s)))"
  using foldl_steps [of "parse_issues_jsonl s" st "[]" "parse_issues_jsonl s"]
  by (simp add: process_changes_def Let_def split_def)

text \<open>
  Claim C7. The notifier calls of a scan are, item by item in store order, the
  classification of the item followed by its all-work-complete event, each taken in the
  state the loop has reached at that item. In such a step \<open>AgentComplete a l\<close> is raised iff
  the item moved to \<open>closed\<close>, \<open>a\<close> is its resolved agent, the outstanding set of \<open>a\<close>
  without this item is empty, and \<open>l\<close>, the current items resolved to \<open>a\<close> with status
  \<open>closed\<close>, is not empty (it cannot be empty when the item itself is among the current
  items); it comes right behind the Completed of the same item. With agent A holding X and
  Y, closing X raises Completed alone, and closing Y afterwards raises Completed followed by
  \<open>AgentComplete A [X, Y]\<close>.
\<close>

theorem agent_all_complete:
  "snd (process_changes st0 s)
     = concat (map (\<lambda>(sk, i). classify (previous_issues sk (issue_id i)) i
                                @ agent_complete_events (parse_issues_jsonl s) sk i)
                   (zip (step_states (parse_issues_jsonl s) st0 (parse_issues_jsonl s))
                        (parse_issues_jsonl s)))
   \<and> snd (process_issue current (st, evs) i)
     = evs @ classify (previous_issues st (issue_id i)) i @ agent_complete_events current st i
   \<and> (AgentComplete a l \<in> set (agent_complete_events current st i) \<longleftrightarrow>
        (\<exists>p. previous_issues st (issue_id i) = Some p \<and> status i = ''closed''
             \<and> snap_status p \<noteq> ''closed'' \<and> get_assigned_agent i = Some a
             \<and> get_open_issues_for_assignee st a - {issue_id i} = {}
             \<and> l = filter (\<lambda>j. get_assigned_agent j = Some a \<and> status j = ''closed'') current
             \<and> l \<noteq> []))
   \<and> (i \<in> set current \<and> status i = ''closed'' \<and> get_assigned_agent i = Some a
        \<longrightarrow> filter (\<lambda>j. get_assigned_agent j = Some a \<and> status j = ''closed'') current \<noteq> [])
   \<and> get_open_issues_for_assignee (fst both_open) ''A'' = {''X'', ''Y''}
   \<and> snd x_done = [Completed x_closed]
   \<and> snd y_done = [Completed y_closed, AgentComplete ''A'' [x_closed, y_closed]]"
proof (intro conjI)
  show "snd (process_changes st0 s)
     = concat (map (\<lambda>(sk, i). classify (previous_issues sk (issue_id i)) i
                                @ agent_complete_events (parse_issues_jsonl s) sk i)
                   (zip (step_states (parse_issues_jsonl s) st0 (parse_issues_jsonl s))
                        (parse_issues_jsonl s)))"
    by (rule scan_steps)
  show "snd (process_issue current (st, evs) i)
     = evs @ classify (previous_issues st (issue_id i)) i @ agent_complete_events current st i"
    by (rule process_issue_events)
  show "AgentComplete a l \<in> set (agent_complete_events current st i) \<longleftrightarrow>
        (\<exists>p. previous_issues st (issue_id i) = Some p \<and> status i = ''closed''
             \<and> snap_status p \<noteq> ''closed'' \<and> get_assigned_agent i = Some a
             \<and> get_open_issues_for_assignee st a - {issue_id i} = {}
             \<and> l = filter (\<lambda>j. get_assigned_agent j = Some a \<and> status j = ''closed'') current
             \<and> l \<noteq> [])"
    unfolding agent_complete_mem closed_by_agent_def ..
  show "i \<in> set current \<and> status i = ''closed'' \<and> get_assigned_agent i = Some a
        \<longrightarrow> filter (\<lambda>j. get_assigned_agent j = Some a \<and> status j = ''closed'') current \<noteq> []"
    using closed_by_agent_nonempty [of i current a] by (simp add: closed_by_agent_def)
  show "get_open_issues_for_assignee (fst both_open) ''A'' = {''X'', ''Y''}"
    by code_simp
  show "snd x_done = [Completed x_closed]"
    by code_simp
  show "snd y_done = [Completed y_closed, AgentComplete ''A'' [x_closed, y_closed]]"
    by code_simp
qed

theorem agent_all_complete_witness:
  "snd (process_issue [x_closed, y_closed] (fst x_done, []) y_closed)
     = [] @ classify (previous_issues (fst x_done) (issue_id y_closed)) y_closed
          @ agent_complete_events [x_closed, y_closed] (fst x_done) y_closed
   \<and> y_closed \<in> set [x_closed, y_closed] \<and> status y_closed = ''closed''
   \<and> get_assigned_agent y_closed = Some ''A''
   \<and> filter (\<lambda>j. get_assigned_agent j = Some ''A'' \<and> status j = ''closed'')
        [x_closed, y_closed] \<noteq> []
   \<and> snd y_done = [Completed y_closed, AgentComplete ''A'' [x_closed, y_closed]]"
proof -
  note t = agent_all_complete [where current = "[x_closed, y_closed]" and st = "fst x_done"
      and evs = "[]" and i = y_closed and a = "''A''" and l = "[x_closed, y_closed]"
      and ?st0.0 = empty_state and s = Missing]
  have h: "y_closed \<in> set [x_closed, y_closed] \<and> status y_closed = ''closed''
      \<and> get_assigned_agent y_closed = Some ''A''"
    by code_simp
  from t h show ?thesis by blast
qed

text \<open>
  Claim C1, evaluated where it fails. Item X is first seen open with assignee A and is then
  reassigned to B: after the second scan X is in the set of B and still in the set of A.
  \<open>update_assignee_tracking\<close> only ever touches the set of the agent the item resolves to
  now.
\<close>

theorem reassignment_keeps_old_entry:
  "assignee_issues (fst first_seen) ''A'' = Some {''X''}
   \<and> assignee_issues (fst reassigned) ''A'' = Some {''X''}
   \<and> assignee_issues (fst reassigned) ''B'' = Some {''X''}"
  by code_simp

text \<open>
  Claim C2, evaluated where it fails. After a scan that recorded X, a scan whose read
  raises makes no notifier call, but it replaces the snapshot by the empty one; the next
  successful scan of the same store announces X as created again.
\<close>

theorem read_failure_wipes_snapshot:
  "previous_issues (fst first_seen) ''X'' = Some (snapshot_of x_open)
   \<and> previous_issues (fst read_failed) ''X'' = None
   \<and> snd read_failed = []
   \<and> snd (process_changes (fst read_failed) (Lines [Entry x_open])) = [Created x_open]"
  by code_simp

section \<open>Endpoint resolution and delivery failures: evaluations\<close>

text \<open>
  Claim C5, evaluated where it fails. With no secrets file, a config file naming one
  endpoint and \<open>SLACK_WEBHOOK_URL\<close> naming another, \<open>SlackConfig.load\<close> resolves to the
  config file's value while \<open>get_webhook_url\<close> resolves to the environment's: the two
  resolvers order config file and environment differently. And when the config file exists
  but cannot be loaded, \<open>load\<close> returns before its environment fallback.
\<close>

theorem resolvers_disagree:
  "webhook_url (load NoSecrets both_config both_env) = config_url
   \<and> get_webhook_url NoSecrets both_config both_env = Some env_url
   \<and> config_url \<noteq> env_url
   \<and> webhook_url (load NoSecrets ConfigLoadFails both_env) = []"
  by code_simp

text \<open>
  Claim C8, evaluated where it fails. The configured endpoint has a mistyped scheme, so it
  is not of the shape the masking pattern looks for; \<open>requests\<close> raises an exception whose
  text quotes the endpoint, and \<open>send\<close> returns false but logs that text with the endpoint
  in it.
\<close>

theorem unmatched_url_is_logged:
  "returned (send typo_config (new_rate_limiter RATE_LIMIT_MAX RATE_LIMIT_WINDOW) 0 0
       (RequestException invalid_schema_message) ''hello'' None) = False
   \<and> logged (send typo_config (new_rate_limiter RATE_LIMIT_MAX RATE_LIMIT_WINDOW) 0 0
       (RequestException invalid_schema_message) ''hello'' None)
       = [''Failed to send Slack notification: '' @ invalid_schema_message]
   \<and> sublist (webhook_url typo_config)
         (''Failed to send Slack notification: '' @ invalid_schema_message)"
  by code_simp

section \<open>Notification text: properties\<close>










































end
